theory Spec2Isabelle
  imports Complex_Main "HOL-Library.Signed_Division"
begin

section \<open>The coefficient record\<close>

text \<open>
  The C++ struct \<open>Coefficient\<close> stores the absolute value of a coefficient, a sign flag and
  the flag that marks the start of the periodic part. A name of the source that is
  not a name in Isabelle (\<open>value\<close>, and the fields ending in an underscore) has a prime
  in place of the underscore: \<open>value'\<close>, \<open>coefficients'\<close>. The methods \<open>normalize\<close> and
  \<open>convergent\<close> are \<open>normalize_cf\<close> and \<open>convergent_cf\<close>, apart from the constants of
  the same names in the library. A \<open>long long\<close> is modelled by \<open>int\<close>. Signed overflow
  is undefined in C++: the evaluations below stay far inside the range, the round trip
  through the textual form has the range among its hypotheses, and the loop of
  \<open>from_rational\<close> ends with an error of its own where its division overflows.
\<close>

record Coefficient =
  value' :: int
  is_negative :: bool
  is_periodic_marker :: bool

definition LLONG_MAX :: int where
  "LLONG_MAX = 9223372036854775807"

definition LLONG_MIN :: int where
  "LLONG_MIN = - 9223372036854775808"

text \<open>\<open>explicit Coefficient(long long val = 0, bool neg = false, bool periodic = false)\<close>\<close>

definition Coefficient3 :: "int \<Rightarrow> bool \<Rightarrow> bool \<Rightarrow> Coefficient" where
  "Coefficient3 val neg periodic =
     \<lparr> value' = \<bar>val\<bar>, is_negative = (val < 0 \<or> neg), is_periodic_marker = periodic \<rparr>"

definition Coefficient1 :: "int \<Rightarrow> Coefficient" where
  "Coefficient1 val = Coefficient3 val False False"

definition signed_value :: "Coefficient \<Rightarrow> int" where
  "signed_value c = (if is_negative c then - value' c else value' c)"

text \<open>\<open>Coefficient::operator==\<close>\<close>

definition coeff_eq :: "Coefficient \<Rightarrow> Coefficient \<Rightarrow> bool" where
  "coeff_eq a b =
     (signed_value a = signed_value b \<and> is_periodic_marker a = is_periodic_marker b)"

section \<open>The continued fraction\<close>

text \<open>
  The private fields of the class. The \<open>double\<close> of the cache is modelled by a real number:
  the evaluations below only meet values that a binary64 number represents exactly.
\<close>

record ContinuedFraction =
  coefficients' :: "Coefficient list"
  is_finite' :: bool
  is_periodic' :: bool
  cached_value' :: real
  value_cached' :: bool

text \<open>
  The exceptions that the class throws (\<open>std::invalid_argument\<close>, \<open>std::out_of_range\<close>,
  \<open>std::runtime_error\<close>), and two more results for what throws nothing in C++ and is
  undefined: a read past the end of the coefficient vector, and a division of \<open>long long\<close>
  whose quotient is out of range.
\<close>

datatype error =
    invalid_argument
  | out_of_range
  | runtime_error
  | out_of_bounds_read
  | signed_overflow

subsection \<open>normalize\<close>

text \<open>
  First step of \<open>normalize\<close>: when there is more than one coefficient, every coefficient
  after the first whose \<open>value\<close> is zero is erased.
\<close>

definition remove_zeros :: "Coefficient list \<Rightarrow> Coefficient list" where
  "remove_zeros cs =
     (if length cs > 1 then hd cs # filter (\<lambda>c. value' c \<noteq> 0) (tl cs) else cs)"

text \<open>
  Second step: the loop \<open>for (size_t i = 0; i + 2 < size(); ++i)\<close>. When the coefficient
  at \<open>i + 1\<close> is a plain 1, the coefficient at \<open>i\<close> is overwritten by
  \<open>Coefficient(c[i] + c[i+2])\<close>, the coefficients at \<open>i + 1\<close> and \<open>i + 2\<close> are erased,
  and \<open>--i\<close> followed by the loop's \<open>++i\<close> leaves \<open>i\<close> where it was (at \<open>i = 0\<close> the
  unsigned index wraps to the maximum and back to 0).
\<close>

function merge_loop :: "nat \<Rightarrow> Coefficient list \<Rightarrow> Coefficient list" where
  "merge_loop i cs =
     (if i + 2 < length cs then
        (if value' (cs ! (i + 1)) = 1 \<and> \<not> is_negative (cs ! (i + 1))
              \<and> \<not> is_periodic_marker (cs ! (i + 1))
         then
           (let new_val = signed_value (cs ! i) + signed_value (cs ! (i + 2));
                cs1 = cs[i := Coefficient1 new_val];
                cs2 = take (i + 1) cs1 @ drop (i + 3) cs1
            in merge_loop i cs2)
         else merge_loop (i + 1) cs)
      else cs)"
  by pat_completeness auto
termination
  by (relation "measure (\<lambda>(i, cs). length cs - i)") auto

definition update_flags :: "ContinuedFraction \<Rightarrow> ContinuedFraction" where
  "update_flags cf =
     (let p = list_ex is_periodic_marker (coefficients' cf)
      in cf\<lparr> is_periodic' := p, is_finite' := \<not> p \<rparr>)"

definition invalidate_cache :: "ContinuedFraction \<Rightarrow> ContinuedFraction" where
  "invalidate_cache cf = cf\<lparr> value_cached' := False, cached_value' := 0 \<rparr>"

definition normalize_cf :: "ContinuedFraction \<Rightarrow> ContinuedFraction" where
  "normalize_cf cf =
     invalidate_cache (update_flags
       (cf\<lparr> coefficients' := merge_loop 0 (remove_zeros (coefficients' cf)) \<rparr>))"

subsection \<open>Constructors, accessors and mutators\<close>

definition ContinuedFraction_default :: ContinuedFraction where
  "ContinuedFraction_default =
     \<lparr> coefficients' = [Coefficient1 0], is_finite' = True, is_periodic' = False,
       cached_value' = 0, value_cached' = False \<rparr>"

definition ContinuedFraction_of_int :: "int \<Rightarrow> ContinuedFraction" where
  "ContinuedFraction_of_int v =
     \<lparr> coefficients' = [Coefficient1 v], is_finite' = True, is_periodic' = False,
       cached_value' = of_int v, value_cached' = True \<rparr>"

definition ContinuedFraction_of_vector :: "int list \<Rightarrow> ContinuedFraction" where
  "ContinuedFraction_of_vector coeffs =
     normalize_cf \<lparr> coefficients' = map Coefficient1 coeffs, is_finite' = True,
                 is_periodic' = False, cached_value' = 0, value_cached' = False \<rparr>"

definition get_coefficients :: "ContinuedFraction \<Rightarrow> int list" where
  "get_coefficients cf = map signed_value (coefficients' cf)"

definition set_coefficients :: "int list \<Rightarrow> ContinuedFraction \<Rightarrow> ContinuedFraction" where
  "set_coefficients coeffs cf = normalize_cf (cf\<lparr> coefficients' := map Coefficient1 coeffs \<rparr>)"

definition add_coefficient :: "int \<Rightarrow> ContinuedFraction \<Rightarrow> ContinuedFraction" where
  "add_coefficient coeff cf =
     normalize_cf (cf\<lparr> coefficients' := coefficients' cf @ [Coefficient1 coeff] \<rparr>)"

definition simplify :: "ContinuedFraction \<Rightarrow> ContinuedFraction" where
  "simplify cf = normalize_cf cf"

definition clear :: "ContinuedFraction \<Rightarrow> ContinuedFraction" where
  "clear cf = normalize_cf (cf\<lparr> coefficients' := [Coefficient1 0] \<rparr>)"

definition is_finite :: "ContinuedFraction \<Rightarrow> bool" where
  "is_finite cf = is_finite' cf"

definition is_periodic :: "ContinuedFraction \<Rightarrow> bool" where
  "is_periodic cf = is_periodic' cf"

definition size_cf :: "ContinuedFraction \<Rightarrow> nat" where
  "size_cf cf = length (coefficients' cf)"

text \<open>
  \<open>create_periodic\<close>: the plain prefix, then the periodic part whose first coefficient
  carries the marker, then \<open>normalize\<close> on a default-constructed object.
\<close>

definition create_periodic :: "int list \<Rightarrow> int list \<Rightarrow> ContinuedFraction" where
  "create_periodic non_periodic periodic =
     (let coeffs = map Coefficient1 non_periodic @
            (if periodic \<noteq> []
             then Coefficient3 (hd periodic) False True # map Coefficient1 (tl periodic)
             else [])
      in normalize_cf (ContinuedFraction_default\<lparr> coefficients' := coeffs \<rparr>))"

subsection \<open>Convergents\<close>

text \<open>
  \<open>coefficients_[i]\<close> on a \<open>std::vector\<close> does not check its index. A read at or past the
  length is undefined in C++; the model makes it the result \<open>out_of_bounds_read\<close>.
\<close>

definition coeff_at :: "Coefficient list \<Rightarrow> nat \<Rightarrow> error + Coefficient" where
  "coeff_at cs i = (if i < length cs then Inr (cs ! i) else Inl out_of_bounds_read)"

text \<open>The loop \<open>for (size_t i = 2; i <= n; ++i)\<close> of \<open>compute_convergent\<close>.\<close>

function convergent_loop ::
  "Coefficient list \<Rightarrow> nat \<Rightarrow> nat \<Rightarrow> int \<Rightarrow> int \<Rightarrow> int \<Rightarrow> int \<Rightarrow> error + (int \<times> int)" where
  "convergent_loop cs n i prev_num prev_den curr_num curr_den =
     (if i \<le> n then
        (case coeff_at cs (i mod length cs) of
           Inl e \<Rightarrow> Inl e
         | Inr c \<Rightarrow>
             (let coeff = signed_value c;
                  new_num = coeff * curr_num + prev_num;
                  new_den = coeff * curr_den + prev_den
              in convergent_loop cs n (i + 1) curr_num curr_den new_num new_den))
      else Inr (curr_num, curr_den))"
  by pat_completeness auto
termination
  by (relation "measure (\<lambda>(cs, n, i, pn, pd, cn, cd). n + 1 - i)") auto

definition compute_convergent :: "ContinuedFraction \<Rightarrow> nat \<Rightarrow> error + (int \<times> int)" where
  "compute_convergent cf n =
     (let cs = coefficients' cf in
      case coeff_at cs 0 of
        Inl e \<Rightarrow> Inl e
      | Inr c0 \<Rightarrow>
          if n = 0 then Inr (signed_value c0, 1)
          else
            (case coeff_at cs 1 of
               Inl e \<Rightarrow> Inl e
             | Inr c1 \<Rightarrow>
                 convergent_loop cs n 2 (signed_value c0) 1
                   (signed_value c0 * signed_value c1 + 1) (signed_value c1)))"

definition convergent_cf :: "ContinuedFraction \<Rightarrow> nat \<Rightarrow> error + (int \<times> int)" where
  "convergent_cf cf n =
     (if n \<ge> length (coefficients' cf) \<and> is_finite' cf then Inl out_of_range
      else compute_convergent cf n)"

text \<open>
  \<open>from_double\<close>, \<open>pi_continued_fraction\<close>, the arithmetic operators and the ordering
  operators compute with \<open>double\<close> throughout and are not part of this model.
\<close>

subsection \<open>from_rational\<close>

text \<open>
  The loop \<open>while (d != 0)\<close>. The operators \<open>/\<close> and \<open>%\<close> of C++ truncate towards zero:
  they are \<open>sdiv\<close> and \<open>smod\<close>. The one division of two \<open>long long\<close> whose quotient is out
  of range is that of the least value by -1: it is undefined in C++, and the loop of the
  model ends there with \<open>signed_overflow\<close>.
\<close>

function euclid_loop :: "int \<Rightarrow> int \<Rightarrow> int list \<Rightarrow> error + int list" where
  "euclid_loop n d coeffs =
     (if d \<noteq> 0 then
        (if n = LLONG_MIN \<and> d = - 1 then Inl signed_overflow
         else
           (let q = n sdiv d; r = n smod d
            in euclid_loop d r (coeffs @ [q])))
      else Inr coeffs)"
  by pat_completeness auto
termination
proof (relation "measure (\<lambda>(n, d, coeffs). nat \<bar>d\<bar>)")
  show "wf (measure (\<lambda>(n, d, coeffs). nat \<bar>d\<bar>))"
    by simp
next
  fix n d :: int and coeffs :: "int list" and x xa
  assume "d \<noteq> 0" and "xa = n smod d"
  moreover have "\<bar>n smod d\<bar> < \<bar>d\<bar>" if "d \<noteq> 0"
    using that smod_int_range [where a = n and b = d] by auto
  ultimately show "((d, xa, coeffs @ [x]), n, d, coeffs) \<in> measure (\<lambda>(n, d, coeffs). nat \<bar>d\<bar>)"
    by simp
qed

definition from_rational :: "int \<Rightarrow> int \<Rightarrow> error + ContinuedFraction" where
  "from_rational numerator denominator =
     (if denominator = 0 then Inl invalid_argument
      else
        (case euclid_loop numerator denominator [] of
           Inl e \<Rightarrow> Inl e
         | Inr coeffs \<Rightarrow> Inr (ContinuedFraction_of_vector coeffs)))"

subsection \<open>The constant generators\<close>

text \<open>
  \<open>e_continued_fraction\<close>: the loop \<open>for (size_t i = 1; i < max_terms; ++i)\<close> pushes
  \<open>2 * ((i + 1) / 3)\<close> when \<open>i % 3 == 2\<close> and 1 otherwise; the vector goes to the
  constructor from a coefficient vector.
\<close>

function e_loop :: "nat \<Rightarrow> nat \<Rightarrow> int list \<Rightarrow> int list" where
  "e_loop i max_terms coeffs =
     (if i < max_terms then
        e_loop (i + 1) max_terms
          (coeffs @ [if i mod 3 = 2 then int (2 * ((i + 1) div 3)) else 1])
      else coeffs)"
  by pat_completeness auto
termination
  by (relation "measure (\<lambda>(i, max_terms, coeffs). max_terms - i)") auto

definition e_continued_fraction :: "nat \<Rightarrow> ContinuedFraction" where
  "e_continued_fraction max_terms = ContinuedFraction_of_vector (e_loop 1 max_terms [2])"

text \<open>
  \<open>static_cast<long long>(std::sqrt(n))\<close>: the square root of the \<open>double\<close>, truncated.
  The model takes the integer square root, found by counting up; the two agree on the small
  radicands evaluated below.
\<close>

function isqrt_loop :: "nat \<Rightarrow> nat \<Rightarrow> nat" where
  "isqrt_loop k n = (if (k + 1) * (k + 1) \<le> n then isqrt_loop (k + 1) n else k)"
  by pat_completeness auto
termination
proof (relation "measure (\<lambda>(k, n). n - k)")
  show "wf (measure (\<lambda>(k, n). n - k))"
    by simp
next
  fix k n :: nat
  assume sq: "(k + 1) * (k + 1) \<le> n"
  have "k + 1 \<le> (k + 1) * (k + 1)"
    by simp
  with sq have "k < n"
    by linarith
  then show "((k + 1, n), k, n) \<in> measure (\<lambda>(k, n). n - k)"
    by simp
qed

text \<open>
  The loop \<open>for (size_t i = 0; i < max_terms; ++i)\<close> of \<open>sqrt_continued_fraction\<close>, with its
  \<open>break\<close> when the new coefficient is \<open>2 * a0\<close>.
\<close>

function sqrt_loop ::
  "nat \<Rightarrow> nat \<Rightarrow> int \<Rightarrow> int \<Rightarrow> int \<Rightarrow> int \<Rightarrow> int \<Rightarrow> int list \<Rightarrow> int list" where
  "sqrt_loop i max_terms n a0 m d a coeffs =
     (if i < max_terms then
        (let m1 = d * a - m;
             d1 = (n - m1 * m1) sdiv d;
             a1 = (a0 + m1) sdiv d1;
             coeffs1 = coeffs @ [a1]
         in if a1 = 2 * a0 then coeffs1
            else sqrt_loop (i + 1) max_terms n a0 m1 d1 a1 coeffs1)
      else coeffs)"
  by pat_completeness auto
termination
  by (relation "measure (\<lambda>(i, max_terms, n, a0, m, d, a, coeffs). max_terms - i)") auto

definition sqrt_continued_fraction :: "int \<Rightarrow> nat \<Rightarrow> error + ContinuedFraction" where
  "sqrt_continued_fraction n max_terms =
     (if n < 0 then Inl invalid_argument
      else
        (let a0 = int (isqrt_loop 0 (nat n)) in
         if a0 * a0 = n then Inr (ContinuedFraction_of_int a0)
         else
           (let coeffs = sqrt_loop 0 max_terms n a0 0 1 a0 [a0]
            in Inr (create_periodic [a0] (tl coeffs)))))"

subsection \<open>to_double\<close>

text \<open>
  The body of the loop over \<open>rbegin() .. rend()\<close>: a running value of exactly 0 is replaced
  by the coefficient, otherwise the coefficient is added to its reciprocal.
\<close>

definition to_double_step :: "Coefficient \<Rightarrow> real \<Rightarrow> real" where
  "to_double_step c v =
     (if v = 0 then of_int (signed_value c) else of_int (signed_value c) + 1 / v)"

text \<open>
  \<open>to_double\<close> is \<open>const\<close> but writes the \<open>mutable\<close> cache: it returns the value and the
  object with its cache filled.
\<close>

definition to_double :: "ContinuedFraction \<Rightarrow> real \<times> ContinuedFraction" where
  "to_double cf =
     (if value_cached' cf then (cached_value' cf, cf)
      else if coefficients' cf = [] then
        (0, cf\<lparr> cached_value' := 0, value_cached' := True \<rparr>)
      else
        (let v = fold to_double_step (rev (coefficients' cf)) 0
         in (v, cf\<lparr> cached_value' := v, value_cached' := True \<rparr>)))"

subsection \<open>Exact comparison\<close>

text \<open>\<open>operator==\<close>: equal sizes, then the coefficients compared index by index.\<close>

fun all_coeff_eq :: "Coefficient list \<Rightarrow> Coefficient list \<Rightarrow> bool" where
  "all_coeff_eq (a # xs) (b # ys) = (if \<not> coeff_eq a b then False else all_coeff_eq xs ys)"
| "all_coeff_eq _ _ = True"

definition cf_equal :: "ContinuedFraction \<Rightarrow> ContinuedFraction \<Rightarrow> bool" where
  "cf_equal a b =
     (if length (coefficients' a) \<noteq> length (coefficients' b) then False
      else all_coeff_eq (coefficients' a) (coefficients' b))"

definition cf_not_equal :: "ContinuedFraction \<Rightarrow> ContinuedFraction \<Rightarrow> bool" where
  "cf_not_equal a b = (\<not> cf_equal a b)"

subsection \<open>to_string\<close>

text \<open>\<open>operator<<\<close> of an output stream on a \<open>long long\<close>: a minus sign, then decimal digits.\<close>

fun show_nat :: "nat \<Rightarrow> string" where
  "show_nat n =
     (if n < 10 then [char_of (48 + n)]
      else show_nat (n div 10) @ [char_of (48 + n mod 10)])"

definition show_ll :: "int \<Rightarrow> string" where
  "show_ll v = (if v < 0 then CHR ''-'' # show_nat (nat (- v)) else show_nat (nat v))"

text \<open>The loop \<open>for (size_t i = 1; i < size(); ++i)\<close> of \<open>to_string\<close>.\<close>

fun to_string_loop :: "Coefficient list \<Rightarrow> string" where
  "to_string_loop [] = []"
| "to_string_loop (c # cs) =
     (if is_periodic_marker c then ''; ('' else ''; '') @ show_ll (signed_value c)
       @ to_string_loop cs"

definition to_string :: "ContinuedFraction \<Rightarrow> string" where
  "to_string cf =
     (if coefficients' cf = [] then ''[0]''
      else ''['' @ show_ll (signed_value (hd (coefficients' cf)))
             @ to_string_loop (tl (coefficients' cf))
             @ (if is_periodic' cf then '')]'' else '']''))"

subsection \<open>parse_string\<close>

text \<open>
  \<open>std::regex_match\<close> against \<open>^\[([^\[\]]+)\]$\<close>: an opening bracket, one or more
  characters that are not brackets, a closing bracket. The result is the first group.
\<close>

definition regex_match :: "string \<Rightarrow> string option" where
  "regex_match str =
     (if length str \<ge> 3 \<and> hd str = CHR ''['' \<and> last str = CHR '']''
         \<and> list_all (\<lambda>c. c \<noteq> CHR ''['' \<and> c \<noteq> CHR '']'') (butlast (tl str))
      then Some (butlast (tl str)) else None)"

text \<open>
  The input stream on the group. A formatted extraction first skips white space (space and
  the characters 9 to 13 in the C locale).
\<close>

definition isspace :: "char \<Rightarrow> bool" where
  "isspace c = ((of_char c :: nat) = 32 \<or> (9 \<le> (of_char c :: nat) \<and> (of_char c :: nat) \<le> 13))"

definition isdigit :: "char \<Rightarrow> bool" where
  "isdigit c = (48 \<le> (of_char c :: nat) \<and> (of_char c :: nat) \<le> 57)"

definition skipws :: "string \<Rightarrow> string" where
  "skipws s = dropWhile isspace s"

text \<open>\<open>iss >> ch\<close>: \<open>None\<close> when the stream is at its end, so that the extraction fails.\<close>

definition get_char :: "string \<Rightarrow> (char \<times> string) option" where
  "get_char s = (case skipws s of [] \<Rightarrow> None | c # rest \<Rightarrow> Some (c, rest))"

text \<open>
  \<open>iss >> coeff\<close> on a \<open>long long\<close>: the new value of the variable, whether the extraction
  succeeded, and the rest of the stream. At the end of the input the variable keeps its old
  value; with no digit to read it is set to 0; out of range it is set to the nearest bound;
  in all three cases the stream fails.
\<close>

definition get_ll :: "int \<Rightarrow> string \<Rightarrow> int \<times> bool \<times> string" where
  "get_ll old s =
     (case skipws s of
        [] \<Rightarrow> (old, False, [])
      | c # rest \<Rightarrow>
          (let body = (if c = CHR ''-'' \<or> c = CHR ''+'' then rest else c # rest);
               ds = takeWhile isdigit body;
               rest1 = dropWhile isdigit body;
               m = foldl (\<lambda>acc d. 10 * acc + (of_char d - 48)) 0 ds;
               v = (if c = CHR ''-'' then - m else m)
           in if ds = [] then (0, False, rest1)
              else if v > LLONG_MAX then (LLONG_MAX, False, rest1)
              else if v < LLONG_MIN then (LLONG_MIN, False, rest1)
              else (v, True, rest1)))"

text \<open>
  The loop \<open>while (iss >> ch && ch == ';') { iss >> coeff; coefficients_.emplace_back(coeff); }\<close>.
  The result of \<open>iss >> coeff\<close> is not tested: the coefficient is pushed, and a failed
  stream ends the loop at the next \<open>iss >> ch\<close>.
\<close>

function parse_loop :: "int \<Rightarrow> string \<Rightarrow> Coefficient list \<Rightarrow> Coefficient list" where
  "parse_loop coeff s coeffs =
     (case get_char s of
        None \<Rightarrow> coeffs
      | Some (ch, rest) \<Rightarrow>
          if ch = CHR '';'' then
            (case get_ll coeff rest of
               (coeff1, ok, rest1) \<Rightarrow>
                 if ok then parse_loop coeff1 rest1 (coeffs @ [Coefficient1 coeff1])
                 else coeffs @ [Coefficient1 coeff1])
          else coeffs)"
  by pat_completeness auto
termination
proof (relation "measure (\<lambda>(coeff, s, coeffs). length s)")
  show "wf (measure (\<lambda>(coeff, s, coeffs). length s))"
    by simp
next
  fix coeff :: int and s :: string and coeffs :: "Coefficient list"
    and x2 ch rest coeff1 y ok rest1
  assume gc: "get_char s = Some x2" and x2: "(ch, rest) = x2"
    and gl: "(coeff1, y) = get_ll coeff rest" and y: "(ok, rest1) = y"
  have drop_le: "length (dropWhile P xs) \<le> length xs" for P and xs :: string
    by (induction xs) auto
  from gc x2 have sk: "skipws s = ch # rest"
    by (auto simp: get_char_def split: list.splits)
  have "length (skipws s) \<le> length s"
    unfolding skipws_def by (rule drop_le)
  with sk have r: "length rest < length s"
    by simp
  have "length (snd (snd (get_ll coeff rest))) \<le> length rest"
  proof (cases "skipws rest")
    case Nil
    then show ?thesis by (simp add: get_ll_def)
  next
    case (Cons c t)
    have "length (skipws rest) \<le> length rest"
      unfolding skipws_def by (rule drop_le)
    with Cons have t: "length t < length rest"
      by simp
    have "length (dropWhile isdigit t) \<le> length t"
      and "length (dropWhile isdigit (c # t)) \<le> Suc (length t)"
      using drop_le [of isdigit t] drop_le [of isdigit "c # t"] by simp_all
    with t Cons show ?thesis
      by (simp add: get_ll_def Let_def)
  qed
  moreover from gl y have "rest1 = snd (snd (get_ll coeff rest))"
    by (metis snd_conv)
  ultimately show "((coeff1, rest1, coeffs @ [Coefficient1 coeff1]), coeff, s, coeffs)
      \<in> measure (\<lambda>(coeff, s, coeffs). length s)"
    using r by simp
qed

text \<open>
  \<open>parse_string\<close> clears the coefficients, then matches, reads the first coefficient, reads
  the others and normalizes. Both \<open>throw std::invalid_argument\<close> leave the object as it is
  at that point: the result is the exception, if any, and the object.
\<close>

definition parse_string :: "string \<Rightarrow> ContinuedFraction \<Rightarrow> error option \<times> ContinuedFraction" where
  "parse_string str cf =
     (let cf1 = cf\<lparr> coefficients' := [] \<rparr> in
      case regex_match str of
        None \<Rightarrow> (Some invalid_argument, cf1)
      | Some content \<Rightarrow>
          (case get_ll 0 content of
             (coeff, ok, rest) \<Rightarrow>
               if \<not> ok then (Some invalid_argument, cf1)
               else (None, normalize_cf
                       (cf1\<lparr> coefficients' := parse_loop coeff rest [Coefficient1 coeff] \<rparr>))))"

text \<open>
  The constructor from a string calls \<open>parse_string\<close> on an object with an empty vector and
  no initialised flag: \<open>normalize\<close> writes all four of them. An exception leaves no
  object.
\<close>

definition ContinuedFraction_of_string :: "string \<Rightarrow> error + ContinuedFraction" where
  "ContinuedFraction_of_string str =
     (case parse_string str
        \<lparr> coefficients' = [], is_finite' = False, is_periodic' = False,
          cached_value' = 0, value_cached' = False \<rparr> of
        (Some e, cf) \<Rightarrow> Inl e
      | (None, cf) \<Rightarrow> Inr cf)"

section \<open>Notions of the specification\<close>

text \<open>
  The value that a finite coefficient sequence a0; a1, a2, ... stands for:
  a0 + 1/(a1 + 1/(a2 + ...)), as a rational number.
\<close>

fun cf_value :: "int list \<Rightarrow> rat" where
  "cf_value [] = 0"
| "cf_value [a] = of_int a"
| "cf_value (a # b # bs) = of_int a + 1 / cf_value (b # bs)"

text \<open>
  The quotient sequence of the Euclidean algorithm in the words of the specification: take
  quotient and remainder of (numerator, denominator), push the quotient, and continue with
  (denominator, remainder) until the remainder is zero. It is compared with the loop of
  \<open>from_rational\<close> below.
\<close>

function euclid_quotients :: "int \<Rightarrow> int \<Rightarrow> int list" where
  "euclid_quotients n d =
     (if d = 0 then []
      else (n sdiv d) # (if n smod d = 0 then [] else euclid_quotients d (n smod d)))"
  by pat_completeness auto
termination
proof (relation "measure (\<lambda>(n, d). nat \<bar>d\<bar>)")
  show "wf (measure (\<lambda>(n, d). nat \<bar>d\<bar>))"
    by simp
next
  fix n d :: int
  assume "d \<noteq> 0"
  then have "\<bar>n smod d\<bar> < \<bar>d\<bar>"
    using smod_int_range [where a = n and b = d] by auto
  then show "((d, n smod d), n, d) \<in> measure (\<lambda>(n, d). nat \<bar>d\<bar>)"
    by simp
qed

text \<open>
  The canonical simple continued fraction of a rational: every partial quotient after the
  first is positive, and the last one is not 1 unless it is the only one.
\<close>

definition canonical_simple :: "int list \<Rightarrow> bool" where
  "canonical_simple qs =
     (qs \<noteq> [] \<and> list_all (\<lambda>q. 1 \<le> q) (tl qs) \<and> (if length qs > 1 then 2 \<le> last qs else True))"

text \<open>
  The invariants of the data model that every constructed object has: the coefficient
  sequence is not empty, the \<open>value\<close> field of a coefficient is the absolute value of a
  \<open>long long\<close>, and the periodic flag says whether a coefficient carries the marker.
\<close>

definition well_formed :: "ContinuedFraction \<Rightarrow> bool" where
  "well_formed cf =
     (coefficients' cf \<noteq> []
      \<and> list_all (\<lambda>c. 0 \<le> value' c \<and> value' c \<le> LLONG_MAX) (coefficients' cf)
      \<and> is_periodic' cf = list_ex is_periodic_marker (coefficients' cf))"

text \<open>
  The canonical state of the data model: no coefficient after the first is zero, and no
  plain 1 (not negative, no marker) stands at an interior position, that is between the
  first coefficient and the last.
\<close>

definition canonical :: "ContinuedFraction \<Rightarrow> bool" where
  "canonical cf =
     (list_all (\<lambda>c. value' c \<noteq> 0) (tl (coefficients' cf))
      \<and> list_all (\<lambda>c. \<not> (value' c = 1 \<and> \<not> is_negative c \<and> \<not> is_periodic_marker c))
            (butlast (tl (coefficients' cf))))"

section \<open>Normalization and the periodic marker\<close>

text \<open>
  Claim C1: for every coefficient sequence that holds a coefficient with the periodic marker,
  normalization neither consumes that coefficient as the 1 of a merge nor absorbs it into a
  merge, so that after \<open>normalize\<close> a coefficient with the marker is still there and
  \<open>is_periodic\<close> is true.

  The guard of the merge only protects the coefficient at \<open>i + 1\<close>. A marker at \<open>i\<close> is
  overwritten by the plain \<open>Coefficient(new_val)\<close>, and a marker at \<open>i + 2\<close> is erased. The
  expansion of the square root of 7 has the period 1, 1, 1, 4: \<open>create_periodic\<close> on it merges
  the marked first 1 with the third, and what is left has no marker.
\<close>

theorem normalize_absorbs_periodic_marker:
  "list_ex is_periodic_marker
     [Coefficient1 2, Coefficient3 1 False True, Coefficient1 1, Coefficient1 1, Coefficient1 4]
   \<and> coefficients' (create_periodic [2] [1, 1, 1, 4])
       = [Coefficient1 2, Coefficient1 2, Coefficient1 4]
   \<and> list_ex is_periodic_marker (coefficients' (create_periodic [2] [1, 1, 1, 4])) = False
   \<and> is_periodic (create_periodic [2] [1, 1, 1, 4]) = False
   \<and> sqrt_continued_fraction 7 10 = Inr (create_periodic [2] [1, 1, 1, 4])"
  by code_simp

text \<open>
  Claim C2: every continued fraction that a constructor or a mutator produces is canonical: no
  coefficient after the first is zero, and no plain 1 stands at an interior position.

  Zeros are erased before the merges only, and a merge writes the sum of two coefficients at
  \<open>i\<close> while the scan goes on from \<open>i + 1\<close>: a sum that is 0 or 1 stays. The constructor
  from the vector 5, -3, 1, 3 keeps a zero at index 1, and \<open>set_coefficients\<close> with
  5, 2, 1, -1, 7 keeps a 1 between 5 and 7.
\<close>

theorem normalize_leaves_zero_and_one:
  "get_coefficients (ContinuedFraction_of_vector [5, - 3, 1, 3]) = [5, 0]
   \<and> get_coefficients (set_coefficients [5, 2, 1, - 1, 7] ContinuedFraction_default) = [5, 1, 7]"
  by code_simp

section \<open>The expansion of e\<close>

text \<open>What the loop of \<open>e_continued_fraction\<close> pushes, before the constructor sees it.\<close>

lemma e_loop_pattern:
  "e_loop i max_terms coeffs =
     coeffs @ map (\<lambda>i. if i mod 3 = 2 then int (2 * ((i + 1) div 3)) else 1) [i..<max_terms]"
proof (induction i max_terms coeffs rule: e_loop.induct)
  case (1 i max_terms coeffs)
  show ?case
  proof (cases "i < max_terms")
    case True
    then have "[i..<max_terms] = i # [i + 1..<max_terms]"
      by (simp add: upt_conv_Cons)
    with True "1.IH" show ?thesis
      by (subst e_loop.simps) (simp del: e_loop.simps)
  next
    case False
    then show ?thesis
      by (subst e_loop.simps) (simp del: e_loop.simps)
  qed
qed

text \<open>
  Claim C3: for every \<open>max_terms\<close> of at least 1, the coefficients of
  \<open>e_continued_fraction(max_terms)\<close> follow the pattern 2; 1, 2, 1, 1, 4, 1, 1, 6: the first is
  2, and the one at position \<open>i\<close> from 1 on is \<open>2 * ((i + 1) / 3)\<close> when \<open>i mod 3 = 2\<close> and 1
  otherwise.

  The loop pushes that pattern for every \<open>max_terms\<close> (when \<open>i mod 3 = 2\<close> the division
  is exact, so the quotient is the ceiling), and the constructor then normalizes it: the
  merges eat the ones. With three terms the vector 2, 1, 2 becomes the single coefficient 4.
\<close>

theorem e_continued_fraction_merged:
  "e_loop 1 max_terms [2] =
     2 # map (\<lambda>i. if i mod 3 = 2 then int (2 * ((i + 1) div 3)) else 1) [1..<max_terms]
   \<and> e_loop 1 3 [2] = [2, 1, 2]
   \<and> get_coefficients (e_continued_fraction 3) = [4]
   \<and> e_loop 1 10 [2] = [2, 1, 2, 1, 1, 4, 1, 1, 6, 1]
   \<and> get_coefficients (e_continued_fraction 10) = [5, 5, 6, 1]"
proof -
  have "e_loop 1 3 [2] = [2, 1, 2]"
    and "get_coefficients (e_continued_fraction 3) = [4]"
    and "e_loop 1 10 [2] = [2, 1, 2, 1, 1, 4, 1, 1, 6, 1]"
    and "get_coefficients (e_continued_fraction 10) = [5, 5, 6, 1]"
    by code_simp+
  with e_loop_pattern [of 1 max_terms "[2]"] show ?thesis
    by (simp del: e_loop.simps)
qed

section \<open>Convergents\<close>

text \<open>
  Claim C4: for the continued fraction built from the list 3, 7, 15, 1, 292, \<open>convergent(0)\<close>
  is (3, 1), \<open>convergent(1)\<close> is (22, 7), \<open>convergent(2)\<close> is (333, 106) and
  \<open>convergent(3)\<close> is (355, 113).

  The constructor merges 15, 1, 292 into 307. The first two convergents are as claimed, the
  third is (6757, 2150), and the fourth is refused: three coefficients are left. On the five
  coefficients as they were given (the last two lines) the recurrence yields the claimed
  values: the defect is in the merge.
\<close>

theorem convergents_of_pi_vector:
  "get_coefficients (ContinuedFraction_of_vector [3, 7, 15, 1, 292]) = [3, 7, 307]
   \<and> convergent_cf (ContinuedFraction_of_vector [3, 7, 15, 1, 292]) 0 = Inr (3, 1)
   \<and> convergent_cf (ContinuedFraction_of_vector [3, 7, 15, 1, 292]) 1 = Inr (22, 7)
   \<and> convergent_cf (ContinuedFraction_of_vector [3, 7, 15, 1, 292]) 2 = Inr (6757, 2150)
   \<and> convergent_cf (ContinuedFraction_of_vector [3, 7, 15, 1, 292]) 3 = Inl out_of_range
   \<and> convergent_cf
        (ContinuedFraction_default\<lparr> coefficients' := map Coefficient1 [3, 7, 15, 1, 292] \<rparr>) 2
       = Inr (333, 106)
   \<and> convergent_cf
        (ContinuedFraction_default\<lparr> coefficients' := map Coefficient1 [3, 7, 15, 1, 292] \<rparr>) 3
       = Inr (355, 113)"
  by code_simp

text \<open>
  Claim C10: for every index that passes the range check of \<open>convergent\<close>,
  \<open>compute_convergent\<close> reads coefficients below the stored length only, also for a
  periodic fraction that stores a single coefficient.

  A periodic fraction passes the check at every index. For a positive index the
  initialisation reads the coefficient at index 1 without reducing it modulo the length, and
  \<open>create_periodic({}, {k})\<close> stores one coefficient.
\<close>

theorem convergent_reads_past_single_coefficient:
  "convergent_cf (create_periodic [] [k]) (Suc n) = Inl out_of_bounds_read"
  by (simp add: convergent_cf_def compute_convergent_def create_periodic_def normalize_cf_def
      remove_zeros_def update_flags_def invalidate_cache_def ContinuedFraction_default_def
      Coefficient3_def coeff_at_def)

section \<open>Parsing and comparing\<close>

text \<open>
  Claim C6: the fraction built from the string \<open>[1; 2, 3]\<close> is equal under \<open>operator==\<close> to
  the one built from the list 1, 2, 3, and the fractions built from \<open>[1; 2, 3]\<close> and from
  \<open>[1; 2, 4]\<close> are unequal under \<open>operator!=\<close>.

  The loop of \<open>parse_string\<close> goes on after a semicolon only. It stops at the first comma,
  so both strings give the coefficients 1, 2. With semicolons throughout (the last line) the
  three coefficients are read.
\<close>

theorem parse_stops_at_comma:
  "ContinuedFraction_of_string ''[1; 2, 3]'' = Inr (ContinuedFraction_of_vector [1, 2])
   \<and> ContinuedFraction_of_string ''[1; 2, 4]'' = Inr (ContinuedFraction_of_vector [1, 2])
   \<and> get_coefficients (ContinuedFraction_of_vector [1, 2]) = [1, 2]
   \<and> cf_equal (ContinuedFraction_of_vector [1, 2]) (ContinuedFraction_of_vector [1, 2, 3]) = False
   \<and> cf_not_equal (ContinuedFraction_of_vector [1, 2]) (ContinuedFraction_of_vector [1, 2]) = False
   \<and> ContinuedFraction_of_string ''[1; 2; 3]'' = Inr (ContinuedFraction_of_vector [1, 2, 3])"
  by code_simp

lemma parse_string_cases:
  "parse_string str cf = (Some invalid_argument, cf\<lparr> coefficients' := [] \<rparr>)
   \<or> fst (parse_string str cf) = None"
proof (cases "regex_match str")
  case None
  then show ?thesis
    by (simp add: parse_string_def)
next
  case (Some content)
  obtain coeff ok rest where g: "get_ll 0 content = (coeff, ok, rest)"
    by (cases "get_ll 0 content") auto
  show ?thesis
  proof (cases ok)
    case True
    with Some g show ?thesis
      by (simp add: parse_string_def)
  next
    case False
    with Some g show ?thesis
      by (simp add: parse_string_def)
  qed
qed

text \<open>
  Claim C8: \<open>parse_string\<close> clears the coefficients before it validates its input. On a valid
  object, a parse that fails with the invalid-format error leaves the object cleared: the
  coefficient sequence is empty, the flags and the cache are those of before the call, and the
  object is not the one of before the call.
\<close>

theorem parse_string_failure_not_atomic:
  assumes "fst (parse_string str cf) = Some e" and "coefficients' cf \<noteq> []"
  shows "e = invalid_argument
    \<and> snd (parse_string str cf) = cf\<lparr> coefficients' := [] \<rparr>
    \<and> snd (parse_string str cf) \<noteq> cf"
proof -
  from assms(1) parse_string_cases [of str cf]
  have p: "parse_string str cf = (Some invalid_argument, cf\<lparr> coefficients' := [] \<rparr>)"
    by auto
  with assms(1) have e: "e = invalid_argument"
    by simp
  have "coefficients' (cf\<lparr> coefficients' := [] \<rparr>) \<noteq> coefficients' cf"
    using assms(2) by simp
  then have "cf\<lparr> coefficients' := [] \<rparr> \<noteq> cf"
    by metis
  with p e show ?thesis
    by simp
qed

theorem parse_string_failure_not_atomic_witness:
  "fst (parse_string ''1; 2'' (ContinuedFraction_of_vector [1, 2, 3])) = Some invalid_argument
   \<and> coefficients' (ContinuedFraction_of_vector [1, 2, 3]) \<noteq> []
   \<and> snd (parse_string ''1; 2'' (ContinuedFraction_of_vector [1, 2, 3]))
       = (ContinuedFraction_of_vector [1, 2, 3])\<lparr> coefficients' := [] \<rparr>
   \<and> snd (parse_string ''1; 2'' (ContinuedFraction_of_vector [1, 2, 3]))
       \<noteq> ContinuedFraction_of_vector [1, 2, 3]"
proof -
  have h1: "fst (parse_string ''1; 2'' (ContinuedFraction_of_vector [1, 2, 3]))
      = Some invalid_argument"
    by code_simp
  have h2: "coefficients' (ContinuedFraction_of_vector [1, 2, 3]) \<noteq> []"
    by code_simp
  have h3: "snd (parse_string ''1; 2'' (ContinuedFraction_of_vector [1, 2, 3]))
       = (ContinuedFraction_of_vector [1, 2, 3])\<lparr> coefficients' := [] \<rparr>
   \<and> snd (parse_string ''1; 2'' (ContinuedFraction_of_vector [1, 2, 3]))
       \<noteq> ContinuedFraction_of_vector [1, 2, 3]"
    using parse_string_failure_not_atomic [OF h1 h2] by (rule conjunct2)
  show ?thesis
    by (intro conjI) (rule h1, rule h2, rule conjunct1 [OF h3], rule conjunct2 [OF h3])
qed

section \<open>The square root of 2\<close>

text \<open>
  Claim C7: the square of \<open>sqrt_continued_fraction(2, 10).to_double()\<close> differs from 2 by
  less than one millionth.

  The expansion stops at the first coefficient equal to \<open>2 * a0\<close>, so the fraction stores the
  integer part 1 and the period 2, and \<open>to_double\<close> folds the stored coefficients only:
  the value is 1 + 1/2. Every number met (2, 1/2, 3/2, 9/4) is a binary64 number, so the
  real arithmetic of the model is the arithmetic of the \<open>double\<close>.
\<close>

theorem sqrt2_square_counterexample:
  "sqrt_continued_fraction 2 10 = Inr (create_periodic [1] [2])
   \<and> \<not> \<bar>fst (to_double (create_periodic [1] [2])) * fst (to_double (create_periodic [1] [2])) - 2\<bar>
         < 1 / 1000000"
  by code_simp

text \<open>
  Claim C7 as amended: \<open>sqrt_continued_fraction(2, 10)\<close> is the periodic fraction that stores
  the coefficients 1 and 2, its \<open>to_double()\<close> is 3/2, and the square of that differs from 2
  by 1/4.
\<close>

theorem sqrt2_to_double:
  "sqrt_continued_fraction 2 10 = Inr (create_periodic [1] [2])
   \<and> get_coefficients (create_periodic [1] [2]) = [1, 2]
   \<and> is_periodic (create_periodic [1] [2])
   \<and> fst (to_double (create_periodic [1] [2])) = 3 / 2
   \<and> fst (to_double (create_periodic [1] [2])) * fst (to_double (create_periodic [1] [2])) - 2 = 1 / 4"
  by code_simp

section \<open>from_rational\<close>

text \<open>The quotient sequence of the specification, one step at a time.\<close>

lemma euclid_quotients_Cons:
  "d \<noteq> 0 \<Longrightarrow> euclid_quotients n d = (n sdiv d) # euclid_quotients d (n smod d)"
  by (simp del: euclid_quotients.simps
      add: euclid_quotients.simps [of n d] euclid_quotients.simps [of d 0])

lemma euclid_quotients_zero: "euclid_quotients n 0 = []"
  by (simp del: euclid_quotients.simps add: euclid_quotients.simps [of n 0])

lemma smod_abs_less: "d \<noteq> 0 \<Longrightarrow> \<bar>n smod d\<bar> < \<bar>d :: int\<bar>"
  using smod_int_range [where a = n and b = d] by auto

lemma smod_LLONG_MIN:
  assumes "LLONG_MIN \<le> n" and "n \<le> LLONG_MAX"
  shows "n smod LLONG_MIN = (if n = LLONG_MIN then 0 else n)"
proof (cases "n = LLONG_MIN")
  case True
  then show ?thesis
    by (simp add: signed_modulo_int_def LLONG_MIN_def)
next
  case False
  with assms have "\<bar>n\<bar> < 9223372036854775808"
    by (simp add: LLONG_MIN_def LLONG_MAX_def)
  then have "\<bar>n\<bar> mod 9223372036854775808 = \<bar>n\<bar>"
    by simp
  then have "n smod LLONG_MIN = sgn n * \<bar>n\<bar>"
    by (simp add: signed_modulo_int_def LLONG_MIN_def)
  with False show ?thesis
    by (simp add: mult_sgn_abs)
qed

text \<open>One step of the loop keeps numerator and denominator where nothing overflows.\<close>

lemma no_overflow_step:
  assumes n: "LLONG_MIN \<le> n" "n \<le> LLONG_MAX" and d: "LLONG_MIN \<le> d" "d \<le> LLONG_MAX"
    and d0: "d \<noteq> 0"
    and n1: "\<not> (\<bar>n\<bar> = 1 \<and> d = LLONG_MIN)"
  shows "LLONG_MIN \<le> n smod d" and "n smod d \<le> LLONG_MAX"
    and "\<not> (d = LLONG_MIN \<and> \<bar>n smod d\<bar> = 1)" and "\<not> (\<bar>d\<bar> = 1 \<and> n smod d = LLONG_MIN)"
proof -
  have r: "\<bar>n smod d\<bar> < \<bar>d\<bar>"
    using d0 by (rule smod_abs_less)
  with d show "LLONG_MIN \<le> n smod d" and "n smod d \<le> LLONG_MAX"
    by (simp_all add: LLONG_MIN_def LLONG_MAX_def)
  from r show "\<not> (\<bar>d\<bar> = 1 \<and> n smod d = LLONG_MIN)"
    by (auto simp: LLONG_MIN_def)
  show "\<not> (d = LLONG_MIN \<and> \<bar>n smod d\<bar> = 1)"
  proof
    assume a: "d = LLONG_MIN \<and> \<bar>n smod d\<bar> = 1"
    then have "n smod d = (if n = LLONG_MIN then 0 else n)"
      using smod_LLONG_MIN [OF n] by simp
    with a have "\<bar>n\<bar> = 1"
      by (simp split: if_splits)
    with a n1 show False
      by simp
  qed
qed

lemma sdiv_in_range:
  assumes n: "LLONG_MIN \<le> n" "n \<le> LLONG_MAX" and d0: "d \<noteq> 0"
    and d1: "\<not> (n = LLONG_MIN \<and> \<bar>d\<bar> = 1)"
  shows "LLONG_MIN < n sdiv d \<and> n sdiv d \<le> LLONG_MAX"
proof (cases "n = LLONG_MIN")
  case False
  with n have "\<bar>n\<bar> \<le> LLONG_MAX"
    by (simp add: LLONG_MIN_def LLONG_MAX_def)
  moreover have "\<bar>n sdiv d\<bar> \<le> \<bar>n\<bar>"
    using sdiv_int_range [of n d] by auto
  ultimately show ?thesis
    unfolding LLONG_MIN_def LLONG_MAX_def by linarith
next
  case True
  with d0 d1 have d2: "2 \<le> \<bar>d\<bar>"
    by simp
  have "0 \<le> \<bar>n\<bar> div \<bar>d\<bar>"
    using d0 by (simp add: pos_imp_zdiv_nonneg_iff)
  moreover have "n \<noteq> 0"
    using True by (simp add: LLONG_MIN_def)
  ultimately have "\<bar>n sdiv d\<bar> = \<bar>n\<bar> div \<bar>d\<bar>"
    using d0 by (simp add: signed_divide_int_def abs_mult)
  also have "\<dots> \<le> \<bar>n\<bar> div 2"
    using d2 by (intro zdiv_mono2) simp_all
  finally have "\<bar>n sdiv d\<bar> \<le> \<bar>n\<bar> div 2" .
  moreover have "\<bar>n\<bar> div 2 = 4611686018427387904"
    using True by (simp add: LLONG_MIN_def)
  ultimately have "\<bar>n sdiv d\<bar> \<le> 4611686018427387904"
    by linarith
  then show ?thesis
    unfolding LLONG_MIN_def LLONG_MAX_def by linarith
qed

lemma euclid_quotients_nonempty: "d \<noteq> 0 \<Longrightarrow> euclid_quotients n d \<noteq> []"
  by (simp del: euclid_quotients.simps add: euclid_quotients.simps [of n d])

lemma cf_value_Cons: "xs \<noteq> [] \<Longrightarrow> cf_value (a # xs) = of_int a + 1 / cf_value xs"
  by (cases xs) simp_all

lemma cf_value_euclid_quotients:
  "d \<noteq> 0 \<Longrightarrow> cf_value (euclid_quotients n d) = of_int n / of_int d"
proof (induction n d rule: euclid_quotients.induct)
  case (1 n d)
  let ?q = "n sdiv d" and ?r = "n smod d"
  have n: "n = ?q * d + ?r"
    by (simp del: euclid_quotients.simps add: sdiv_mult_smod_eq)
  have d0: "(of_int d :: rat) \<noteq> 0"
    using "1.prems" by (simp del: euclid_quotients.simps)
  show ?case
  proof (cases "?r = 0")
    case True
    with n have "n = ?q * d" by (simp del: euclid_quotients.simps)
    then have "(of_int n :: rat) = of_int ?q * of_int d"
      by (metis of_int_mult)
    with d0 have "(of_int n :: rat) / of_int d = of_int ?q"
      by (simp del: euclid_quotients.simps)
    with True "1.prems" show ?thesis
      by (simp del: euclid_quotients.simps add: euclid_quotients.simps [of n d])
  next
    case False
    then have r0: "(of_int ?r :: rat) \<noteq> 0" by (simp del: euclid_quotients.simps)
    from "1.IH" [OF "1.prems" False False]
    have ih: "cf_value (euclid_quotients d ?r) = of_int d / of_int ?r" .
    have "(of_int n :: rat) = of_int ?q * of_int d + of_int ?r"
      by (metis n of_int_add of_int_mult)
    then have "(of_int n :: rat) / of_int d = of_int ?q + of_int ?r / of_int d"
      using d0 by (simp del: euclid_quotients.simps add: field_simps)
    moreover have "cf_value (euclid_quotients n d) = of_int ?q + 1 / cf_value (euclid_quotients d ?r)"
      using "1.prems" False euclid_quotients_nonempty [OF False, of d]
      by (simp del: euclid_quotients.simps add: euclid_quotients.simps [of n d] cf_value_Cons)
    ultimately show ?thesis
      using ih by (simp del: euclid_quotients.simps)
  qed
qed

lemma sdiv_nonneg_pos: "0 \<le> n \<Longrightarrow> 0 < d \<Longrightarrow> n sdiv d = n div (d::int)"
  by (cases "n = 0") (simp_all add: signed_divide_int_def)

lemma smod_nonneg_pos: "0 \<le> n \<Longrightarrow> 0 < d \<Longrightarrow> n smod d = n mod (d::int)"
  by (cases "n = 0") (simp_all add: signed_modulo_int_def)

lemma euclid_quotients_all_positive:
  "0 < d \<Longrightarrow> d \<le> n \<Longrightarrow> list_all (\<lambda>q. 1 \<le> q) (euclid_quotients n d)"
proof (induction n d rule: euclid_quotients.induct)
  case (1 n d)
  from "1.prems" have d0: "d \<noteq> 0" and n0: "0 \<le> n"
    by (simp_all del: euclid_quotients.simps)
  have q: "n sdiv d = n div d" and r: "n smod d = n mod d"
    using n0 "1.prems"(1)
      by (simp_all del: euclid_quotients.simps add: sdiv_nonneg_pos smod_nonneg_pos)
  have "0 < n div d"
    using "1.prems" pos_imp_zdiv_pos_iff [of d n] by blast
  then have q1: "1 \<le> n div d"
    by linarith
  show ?case
  proof (cases "n smod d = 0")
    case True
    with d0 q q1 show ?thesis
      by (simp del: euclid_quotients.simps add: euclid_quotients.simps [of n d])
  next
    case False
    have "0 \<le> n mod d" and "n mod d < d"
      using "1.prems"(1) by (simp_all del: euclid_quotients.simps)
    with False r have "0 < n smod d" and "n smod d \<le> d"
      by (simp_all del: euclid_quotients.simps)
    from "1.IH" [OF d0 False this]
    have "list_all (\<lambda>q. 1 \<le> q) (euclid_quotients d (n smod d))" .
    with d0 False q q1 show ?thesis
      by (simp del: euclid_quotients.simps add: euclid_quotients.simps [of n d])
  qed
qed

lemma euclid_quotients_last:
  "0 < d \<Longrightarrow> d < n \<Longrightarrow> 2 \<le> last (euclid_quotients n d)"
proof (induction n d rule: euclid_quotients.induct)
  case (1 n d)
  from "1.prems" have d0: "d \<noteq> 0" and n0: "0 \<le> n"
    by (simp_all del: euclid_quotients.simps)
  have q: "n sdiv d = n div d" and r: "n smod d = n mod d"
    using n0 "1.prems"(1)
      by (simp_all del: euclid_quotients.simps add: sdiv_nonneg_pos smod_nonneg_pos)
  show ?case
  proof (cases "n smod d = 0")
    case True
    with r have "n = (n div d) * d"
      using div_mult_mod_eq [of n d] by (simp del: euclid_quotients.simps)
    moreover have "0 < n div d"
      using "1.prems" pos_imp_zdiv_pos_iff [of d n] by (simp del: euclid_quotients.simps)
    ultimately have "2 \<le> n div d"
      using "1.prems"(2) by (cases "n div d = 1") (auto simp del: euclid_quotients.simps)
    with d0 q True show ?thesis
      by (simp del: euclid_quotients.simps add: euclid_quotients.simps [of n d])
  next
    case False
    have "0 \<le> n mod d" and "n mod d < d"
      using "1.prems"(1) by (simp_all del: euclid_quotients.simps)
    with False r have "0 < n smod d" and "n smod d < d"
      by (simp_all del: euclid_quotients.simps)
    from "1.IH" [OF d0 False this]
    have "2 \<le> last (euclid_quotients d (n smod d))" .
    moreover have "euclid_quotients d (n smod d) \<noteq> []"
      using False by (rule euclid_quotients_nonempty)
    ultimately show ?thesis
      using d0 False by (simp del: euclid_quotients.simps add: euclid_quotients.simps [of n d])
  qed
qed

lemma euclid_quotients_canonical:
  assumes "0 \<le> n" and "0 < d"
  shows "canonical_simple (euclid_quotients n d)"
proof (cases "n smod d = 0")
  case True
  with assms show ?thesis
    by (simp del: euclid_quotients.simps add: canonical_simple_def euclid_quotients.simps [of n d])
next
  case False
  have r: "n smod d = n mod d"
    using assms by (simp del: euclid_quotients.simps add: smod_nonneg_pos)
  have "0 \<le> n mod d" and "n mod d < d"
    using assms(2) by (simp_all del: euclid_quotients.simps)
  with False r have r0: "0 < n smod d" and rd: "n smod d < d"
    by (simp_all del: euclid_quotients.simps)
  have "list_all (\<lambda>q. 1 \<le> q) (euclid_quotients d (n smod d))"
    using r0 rd by (intro euclid_quotients_all_positive) (simp_all del: euclid_quotients.simps)
  moreover have "2 \<le> last (euclid_quotients d (n smod d))"
    using r0 rd by (rule euclid_quotients_last)
  moreover have "euclid_quotients d (n smod d) \<noteq> []"
    using False by (rule euclid_quotients_nonempty)
  ultimately show ?thesis
    using assms False
      by (simp del: euclid_quotients.simps
          add: canonical_simple_def euclid_quotients.simps [of n d])
qed

text \<open>
  Where neither the division nor the absolute value of a quotient overflows, the loop of
  \<open>from_rational\<close> pushes the quotient sequence of the specification.
\<close>

lemma euclid_loop_quotients:
  assumes "LLONG_MIN \<le> n" "n \<le> LLONG_MAX" "LLONG_MIN \<le> d" "d \<le> LLONG_MAX"
    and "\<not> (n = LLONG_MIN \<and> \<bar>d\<bar> = 1)" "\<not> (\<bar>n\<bar> = 1 \<and> d = LLONG_MIN)"
  shows "euclid_loop n d coeffs = Inr (coeffs @ euclid_quotients n d)"
  using assms
proof (induction n d coeffs rule: euclid_loop.induct)
  case (1 n d coeffs)
  show ?case
  proof (cases "d = 0")
    case True
    then show ?thesis
      by (simp del: euclid_loop.simps add: euclid_loop.simps [of n 0] euclid_quotients_zero)
  next
    case False
    have no: "\<not> (n = LLONG_MIN \<and> d = - 1)"
      using "1.prems"(5) by auto
    note step = no_overflow_step [OF "1.prems"(1-4) False "1.prems"(6)]
    have "euclid_loop d (n smod d) (coeffs @ [n sdiv d])
        = Inr ((coeffs @ [n sdiv d]) @ euclid_quotients d (n smod d))"
      using False no refl refl "1.prems"(3,4) step by (rule "1.IH")
    then show ?thesis
      using False no
      by (simp del: euclid_loop.simps
          add: euclid_loop.simps [of n d coeffs] Let_def euclid_quotients_Cons [OF False])
  qed
qed

lemma euclid_quotients_in_range:
  assumes "LLONG_MIN \<le> n" "n \<le> LLONG_MAX" "LLONG_MIN \<le> d" "d \<le> LLONG_MAX"
    and "\<not> (n = LLONG_MIN \<and> \<bar>d\<bar> = 1)" "\<not> (\<bar>n\<bar> = 1 \<and> d = LLONG_MIN)"
  shows "list_all (\<lambda>q. LLONG_MIN < q \<and> q \<le> LLONG_MAX) (euclid_quotients n d)"
  using assms
proof (induction n d rule: euclid_quotients.induct)
  case (1 n d)
  show ?case
  proof (cases "d = 0")
    case True
    then show ?thesis
      by (simp add: euclid_quotients_zero)
  next
    case False
    note step = no_overflow_step [OF "1.prems"(1-4) False "1.prems"(6)]
    have q: "LLONG_MIN < n sdiv d \<and> n sdiv d \<le> LLONG_MAX"
      using "1.prems"(1,2) False "1.prems"(5) by (rule sdiv_in_range)
    show ?thesis
    proof (cases "n smod d = 0")
      case True
      with False q show ?thesis
        by (simp del: euclid_quotients.simps add: euclid_quotients.simps [of n d])
    next
      case nz: False
      have "list_all (\<lambda>q. LLONG_MIN < q \<and> q \<le> LLONG_MAX) (euclid_quotients d (n smod d))"
        using False nz "1.prems"(3,4) step by (rule "1.IH")
      with False nz q show ?thesis
        by (simp del: euclid_quotients.simps add: euclid_quotients.simps [of n d])
    qed
  qed
qed

text \<open>
  When is the pushed sequence canonical? Changing both signs changes no quotient; with
  opposite signs and a remainder, the second quotient is not positive.
\<close>

lemma euclid_quotients_minus: "euclid_quotients (- n) (- d) = euclid_quotients n d"
proof (induction n d rule: euclid_quotients.induct)
  case (1 n d)
  show ?case
  proof (cases "d = 0")
    case True
    then show ?thesis
      by (simp add: euclid_quotients_zero)
  next
    case False
    have q: "(- n) sdiv (- d) = n sdiv d"
      by (simp add: signed_divide_int_def)
    have r: "(- n) smod (- d) = - (n smod d)"
      by (simp add: signed_modulo_int_def)
    show ?thesis
    proof (cases "n smod d = 0")
      case True
      with False q r show ?thesis
        by (simp del: euclid_quotients.simps
            add: euclid_quotients.simps [of n d] euclid_quotients.simps [of "- n" "- d"])
    next
      case nz: False
      from "1.IH" [OF False nz]
      have "euclid_quotients (- d) (- (n smod d)) = euclid_quotients d (n smod d)" .
      with False nz q r show ?thesis
        by (simp del: euclid_quotients.simps
            add: euclid_quotients.simps [of n d] euclid_quotients.simps [of "- n" "- d"])
    qed
  qed
qed

lemma smod_eq_0_iff_dvd: "d \<noteq> 0 \<Longrightarrow> n smod d = 0 \<longleftrightarrow> d dvd (n :: int)"
proof -
  assume "d \<noteq> 0"
  have "n smod d = 0 \<longleftrightarrow> n = 0 \<or> \<bar>n\<bar> mod \<bar>d\<bar> = 0"
    by (auto simp: signed_modulo_int_def sgn_if)
  also have "\<dots> \<longleftrightarrow> \<bar>d\<bar> dvd \<bar>n\<bar>"
    by (auto simp: dvd_eq_mod_eq_0)
  also have "\<dots> \<longleftrightarrow> d dvd n"
    by simp
  finally show ?thesis .
qed

lemma euclid_quotients_opposite_signs:
  assumes "(n < 0 \<and> 0 < d) \<or> (0 < n \<and> d < 0)" and "\<not> d dvd n"
  shows "\<not> canonical_simple (euclid_quotients n d)"
proof -
  from assms(1) have d0: "d \<noteq> 0"
    by auto
  let ?r = "n smod d"
  from assms(2) d0 have r0: "?r \<noteq> 0"
    by (simp add: smod_eq_0_iff_dvd)
  have "0 \<le> \<bar>n\<bar> mod \<bar>d\<bar>"
    using d0 by simp
  moreover have "?r = sgn n * (\<bar>n\<bar> mod \<bar>d\<bar>)"
    by (simp add: signed_modulo_int_def)
  ultimately have "sgn ?r = sgn n"
    using r0 by (cases "\<bar>n\<bar> mod \<bar>d\<bar> = 0") (simp_all add: sgn_mult)
  with assms(1) have "sgn d * sgn ?r = - 1"
    by (auto simp: sgn_if)
  moreover have "0 \<le> \<bar>d\<bar> div \<bar>?r\<bar>"
    by (simp add: pos_imp_zdiv_nonneg_iff r0)
  ultimately have "d sdiv ?r \<le> 0"
    by (simp add: signed_divide_int_def)
  moreover have "euclid_quotients n d = (n sdiv d) # (d sdiv ?r) # euclid_quotients ?r (d smod ?r)"
    using d0 r0 by (simp del: euclid_quotients.simps add: euclid_quotients_Cons)
  ultimately show ?thesis
    by (simp del: euclid_quotients.simps add: canonical_simple_def)
qed

lemma euclid_quotients_canonical_iff:
  assumes "d \<noteq> 0"
  shows "canonical_simple (euclid_quotients n d)
    = ((0 \<le> n \<and> 0 < d) \<or> (n \<le> 0 \<and> d < 0) \<or> d dvd n)"
proof (cases "(0 \<le> n \<and> 0 < d) \<or> (n \<le> 0 \<and> d < 0) \<or> d dvd n")
  case False
  then have "(n < 0 \<and> 0 < d) \<or> (0 < n \<and> d < 0)" and "\<not> d dvd n"
    using assms by auto
  then have "\<not> canonical_simple (euclid_quotients n d)"
    by (rule euclid_quotients_opposite_signs)
  with False show ?thesis
    by simp
next
  case True
  then consider "0 \<le> n \<and> 0 < d" | "n \<le> 0 \<and> d < 0" | "d dvd n"
    by blast
  then have "canonical_simple (euclid_quotients n d)"
  proof cases
    case 1
    then show ?thesis
      by (simp del: euclid_quotients.simps add: euclid_quotients_canonical)
  next
    case 2
    then have "canonical_simple (euclid_quotients (- n) (- d))"
      by (intro euclid_quotients_canonical) simp_all
    then show ?thesis
      by (simp only: euclid_quotients_minus)
  next
    case 3
    with assms have "n smod d = 0"
      by (simp add: smod_eq_0_iff_dvd)
    with assms show ?thesis
      by (simp del: euclid_quotients.simps
          add: euclid_quotients.simps [of n d] canonical_simple_def)
  qed
  with True show ?thesis
    by simp
qed

text \<open>The two divisions that overflow.\<close>

lemma euclid_loop_overflow:
  "euclid_loop LLONG_MIN (- 1) [] = Inl signed_overflow
   \<and> euclid_loop (- 1) LLONG_MIN [] = Inl signed_overflow
   \<and> from_rational LLONG_MIN (- 1) = Inl signed_overflow
   \<and> from_rational (- 1) LLONG_MIN = Inl signed_overflow"
  by code_simp

text \<open>
  Claim C5: \<open>from_rational(355, 113)\<close> returns the coefficients 3, 7, 15, 1, and for every
  denominator other than zero \<open>from_rational\<close> pushes the quotient sequence of the Euclidean
  algorithm, which is the canonical simple continued fraction of the rational.

  The algorithm ends with the quotient 16 of 16 by 1: the coefficients are 3, 7, 16. And the
  division of C++ truncates, so numerator and denominator of opposite signs give quotients
  that are not positive: -7 and 2 give -3, -2, where the canonical expansion of -7/2 is
  -4; 2.
\<close>

theorem from_rational_counterexample:
  "from_rational 355 113 = Inr (ContinuedFraction_of_vector [3, 7, 16])
   \<and> get_coefficients (ContinuedFraction_of_vector [3, 7, 16]) \<noteq> [3, 7, 15, 1]
   \<and> euclid_loop (- 7) 2 [] = Inr [- 3, - 2]
   \<and> \<not> canonical_simple [- 3, - 2]"
  by code_simp

text \<open>
  Claim C5 as amended: \<open>from_rational(355, 113)\<close> returns the coefficients 3, 7, 16. For
  every numerator and every denominator other than zero of type \<open>long long\<close>, the four
  pairs of the least value with 1 or -1 apart, \<open>from_rational\<close> pushes the quotient sequence
  of the Euclidean algorithm with truncating division and hands it to the constructor from
  a vector; every quotient is a \<open>long long\<close> other than the least; the sequence has the value
  numerator/denominator as a continued fraction; and it is the canonical simple continued
  fraction exactly when numerator and denominator do not have opposite signs or the
  denominator divides the numerator.

  The four pairs are those on which the source has no defined result: with the least value
  and -1 a division overflows (in the first step, or in the second when the least value is
  the denominator), with the least value and 1 a quotient is the least value, whose
  absolute value the constructor of a coefficient takes.
\<close>

theorem from_rational_euclid:
  assumes "LLONG_MIN \<le> numerator" and "numerator \<le> LLONG_MAX"
    and "LLONG_MIN \<le> denominator" and "denominator \<le> LLONG_MAX"
    and "denominator \<noteq> 0"
    and "\<not> (numerator = LLONG_MIN \<and> \<bar>denominator\<bar> = 1)"
    and "\<not> (\<bar>numerator\<bar> = 1 \<and> denominator = LLONG_MIN)"
  shows "from_rational 355 113 = Inr (ContinuedFraction_of_vector [3, 7, 16])
   \<and> get_coefficients (ContinuedFraction_of_vector [3, 7, 16]) = [3, 7, 16]
   \<and> euclid_loop numerator denominator [] = Inr (euclid_quotients numerator denominator)
   \<and> from_rational numerator denominator
       = Inr (ContinuedFraction_of_vector (euclid_quotients numerator denominator))
   \<and> list_all (\<lambda>q. LLONG_MIN < q \<and> q \<le> LLONG_MAX) (euclid_quotients numerator denominator)
   \<and> cf_value (euclid_quotients numerator denominator) = of_int numerator / of_int denominator
   \<and> canonical_simple (euclid_quotients numerator denominator)
       = ((0 \<le> numerator \<and> 0 < denominator) \<or> (numerator \<le> 0 \<and> denominator < 0)
          \<or> denominator dvd numerator)"
proof -
  have a: "from_rational 355 113 = Inr (ContinuedFraction_of_vector [3, 7, 16])"
    by code_simp
  have b: "get_coefficients (ContinuedFraction_of_vector [3, 7, 16]) = [3, 7, 16]"
    by code_simp
  have c: "euclid_loop numerator denominator [] = Inr (euclid_quotients numerator denominator)"
    using euclid_loop_quotients [OF assms(1-4,6,7), of "[]"] by simp
  then have d: "from_rational numerator denominator
       = Inr (ContinuedFraction_of_vector (euclid_quotients numerator denominator))"
    using assms(5) by (simp add: from_rational_def)
  have e: "list_all (\<lambda>q. LLONG_MIN < q \<and> q \<le> LLONG_MAX)
      (euclid_quotients numerator denominator)"
    using assms(1-4,6,7) by (rule euclid_quotients_in_range)
  have f: "cf_value (euclid_quotients numerator denominator)
      = of_int numerator / of_int denominator"
    using assms(5) by (rule cf_value_euclid_quotients)
  have g: "canonical_simple (euclid_quotients numerator denominator)
       = ((0 \<le> numerator \<and> 0 < denominator) \<or> (numerator \<le> 0 \<and> denominator < 0)
          \<or> denominator dvd numerator)"
    using assms(5) by (rule euclid_quotients_canonical_iff)
  show ?thesis
    by (intro conjI) (rule a, rule b, rule c, rule d, rule e, rule f, rule g)
qed

theorem from_rational_euclid_witness:
  "LLONG_MIN \<le> 7 \<and> 7 \<le> LLONG_MAX \<and> LLONG_MIN \<le> 4 \<and> 4 \<le> LLONG_MAX \<and> (4::int) \<noteq> 0
   \<and> euclid_loop 7 4 [] = Inr [1, 1, 3]
   \<and> from_rational 7 4 = Inr (ContinuedFraction_of_vector [1, 1, 3])
   \<and> cf_value [1, 1, 3] = 7 / 4
   \<and> canonical_simple [1, 1, 3]"
proof -
  have h: "LLONG_MIN \<le> 7" "7 \<le> LLONG_MAX" "LLONG_MIN \<le> 4" "4 \<le> LLONG_MAX" "(4::int) \<noteq> 0"
    "\<not> (7 = LLONG_MIN \<and> \<bar>4 :: int\<bar> = 1)" "\<not> (\<bar>7 :: int\<bar> = 1 \<and> 4 = LLONG_MIN)"
    by (simp_all add: LLONG_MIN_def LLONG_MAX_def)
  have e: "euclid_quotients 7 4 = [1, 1, 3]"
    by code_simp
  from from_rational_euclid [OF h] h(1-5) show ?thesis
    unfolding e by simp
qed

section \<open>The round trip through the textual form\<close>

text \<open>Decimal digits: what \<open>show_nat\<close> writes is what \<open>get_ll\<close> reads.\<close>

lemma digit_char_props:
  assumes "k < 10"
  shows "isdigit (char_of (48 + k))" and "(of_char (char_of (48 + k)) :: int) - 48 = int k"
proof -
  from assms have m: "(48 + k) mod 256 = 48 + k"
    by simp
  then have n: "(of_char (char_of (48 + k)) :: nat) = 48 + k"
    by simp
  then show "isdigit (char_of (48 + k))"
    using assms by (simp add: isdigit_def)
  have "(of_char (char_of (48 + k)) :: int) = int (of_char (char_of (48 + k)))"
    by (simp only: of_nat_of_char)
  with n show "(of_char (char_of (48 + k)) :: int) - 48 = int k"
    by simp
qed

lemma isdigit_not_special:
  assumes "isdigit c"
  shows "\<not> isspace c" and "c \<noteq> CHR ''-''" and "c \<noteq> CHR ''+''" and "c \<noteq> CHR ''[''"
    and "c \<noteq> CHR '']''" and "c \<noteq> CHR '';''"
  using assms by (auto simp add: isdigit_def isspace_def)

lemma show_nat_nonempty: "show_nat n \<noteq> []"
  by (subst show_nat.simps) (simp del: show_nat.simps)

lemma show_nat_digits: "list_all isdigit (show_nat n)"
proof (induction n rule: show_nat.induct)
  case (1 n)
  show ?case
  proof (cases "n < 10")
    case True
    then show ?thesis
      by (subst show_nat.simps) (simp del: show_nat.simps add: digit_char_props(1))
  next
    case False
    have "n mod 10 < 10" by (simp del: show_nat.simps)
    then have "isdigit (char_of (48 + n mod 10))"
      by (rule digit_char_props(1))
    with False "1.IH" show ?thesis
      by (subst show_nat.simps) (simp del: show_nat.simps)
  qed
qed

lemma show_nat_value:
  "foldl (\<lambda>acc d. 10 * acc + (of_char d - 48)) 0 (show_nat n) = int n"
proof (induction n rule: show_nat.induct)
  case (1 n)
  show ?case
  proof (cases "n < 10")
    case True
    then show ?thesis
      by (subst show_nat.simps) (simp del: show_nat.simps add: digit_char_props(2))
  next
    case False
    have "n mod 10 < 10" by (simp del: show_nat.simps)
    then have "(of_char (char_of (48 + n mod 10)) :: int) - 48 = int (n mod 10)"
      by (rule digit_char_props(2))
    with False "1.IH" have
      "foldl (\<lambda>acc d. 10 * acc + (of_char d - 48)) 0 (show_nat n) = 10 * int (n div 10) + int (n mod 10)"
      by (subst show_nat.simps) (simp del: show_nat.simps)
    also have "\<dots> = int n"
      using mult_div_mod_eq [of 10 n] by linarith
    finally show ?thesis .
  qed
qed


text \<open>Reading back a number that is followed by something that is not a digit.\<close>

lemma digits_split:
  assumes "list_all isdigit ds" and "takeWhile isdigit rest = []"
  shows "takeWhile isdigit (ds @ rest) = ds" and "dropWhile isdigit (ds @ rest) = rest"
proof -
  from assms(1) have all: "\<And>x. x \<in> set ds \<Longrightarrow> isdigit x"
    by (simp add: list_all_iff)
  then show "takeWhile isdigit (ds @ rest) = ds"
    using assms(2) by (simp add: takeWhile_append2)
  have "dropWhile isdigit rest = rest"
    using assms(2) takeWhile_dropWhile_id [of isdigit rest] by simp
  with all show "dropWhile isdigit (ds @ rest) = rest"
    by (simp add: dropWhile_append2)
qed

lemma get_ll_digits:
  assumes ds: "ds \<noteq> []" "list_all isdigit ds" and rest: "takeWhile isdigit rest = []"
    and m: "foldl (\<lambda>acc d. 10 * acc + (of_char d - 48)) 0 ds = m"
    and range: "LLONG_MIN \<le> m" "m \<le> LLONG_MAX"
  shows "get_ll old (ds @ rest) = (m, True, rest)"
proof -
  from ds(1) obtain c t where ct: "ds = c # t"
    by (cases ds) auto
  with ds(2) have c: "isdigit c"
    by simp
  have sk: "skipws (ds @ rest) = c # (t @ rest)"
    using ct c by (simp add: skipws_def isdigit_not_special(1))
  have body: "(if c = CHR ''-'' \<or> c = CHR ''+'' then t @ rest else c # (t @ rest)) = ds @ rest"
    using ct isdigit_not_special(2,3) [OF c] by simp
  have neg: "c \<noteq> CHR ''-''"
    using isdigit_not_special(2) [OF c] .
  have "get_ll old (ds @ rest) =
      (let body = ds @ rest;
           ds1 = takeWhile isdigit body;
           rest1 = dropWhile isdigit body;
           m1 = foldl (\<lambda>acc d. 10 * acc + (of_char d - 48)) 0 ds1;
           v = (if c = CHR ''-'' then - m1 else m1)
       in if ds1 = [] then (0, False, rest1)
          else if v > LLONG_MAX then (LLONG_MAX, False, rest1)
          else if v < LLONG_MIN then (LLONG_MIN, False, rest1)
          else (v, True, rest1))"
    unfolding get_ll_def sk list.case body ..
  also have "\<dots> = (m, True, rest)"
    unfolding Let_def digits_split [OF ds(2) rest] m
    using ds(1) neg range by simp
  finally show ?thesis .
qed

lemma get_ll_minus_digits:
  assumes ds: "ds \<noteq> []" "list_all isdigit ds" and rest: "takeWhile isdigit rest = []"
    and m: "foldl (\<lambda>acc d. 10 * acc + (of_char d - 48)) 0 ds = m"
    and range: "LLONG_MIN \<le> - m" "- m \<le> LLONG_MAX"
  shows "get_ll old (CHR ''-'' # ds @ rest) = (- m, True, rest)"
proof -
  have sk: "skipws (CHR ''-'' # ds @ rest) = CHR ''-'' # (ds @ rest)"
    by (simp add: skipws_def isspace_def)
  have body: "(if CHR ''-'' = CHR ''-'' \<or> CHR ''-'' = CHR ''+'' then ds @ rest
               else CHR ''-'' # (ds @ rest)) = ds @ rest"
    by simp
  have "get_ll old (CHR ''-'' # ds @ rest) =
      (let body = ds @ rest;
           ds1 = takeWhile isdigit body;
           rest1 = dropWhile isdigit body;
           m1 = foldl (\<lambda>acc d. 10 * acc + (of_char d - 48)) 0 ds1;
           v = (if CHR ''-'' = CHR ''-'' then - m1 else m1)
       in if ds1 = [] then (0, False, rest1)
          else if v > LLONG_MAX then (LLONG_MAX, False, rest1)
          else if v < LLONG_MIN then (LLONG_MIN, False, rest1)
          else (v, True, rest1))"
    unfolding get_ll_def sk list.case body ..
  also have "\<dots> = (- m, True, rest)"
    unfolding Let_def digits_split [OF ds(2) rest] m
    using ds(1) range by simp
  finally show ?thesis .
qed

lemma get_ll_show_ll:
  assumes "LLONG_MIN \<le> v" and "v \<le> LLONG_MAX" and "takeWhile isdigit rest = []"
  shows "get_ll old (show_ll v @ rest) = (v, True, rest)"
proof (cases "v < 0")
  case True
  have "get_ll old (CHR ''-'' # show_nat (nat (- v)) @ rest) = (- int (nat (- v)), True, rest)"
    using show_nat_nonempty show_nat_digits assms(3) show_nat_value
  proof (rule get_ll_minus_digits)
    show "LLONG_MIN \<le> - int (nat (- v))" and "- int (nat (- v)) \<le> LLONG_MAX"
      using True assms by (simp_all del: show_nat.simps)
  qed
  with True show ?thesis
    by (simp del: show_nat.simps add: show_ll_def)
next
  case False
  have "get_ll old (show_nat (nat v) @ rest) = (int (nat v), True, rest)"
    using show_nat_nonempty show_nat_digits assms(3) show_nat_value
  proof (rule get_ll_digits)
    show "LLONG_MIN \<le> int (nat v)" and "int (nat v) \<le> LLONG_MAX"
      using False assms by (simp_all del: show_nat.simps)
  qed
  with False show ?thesis
    by (simp del: show_nat.simps add: show_ll_def)
qed

lemma get_ll_space: "get_ll old (CHR '' '' # s) = get_ll old s"
  by (simp add: get_ll_def skipws_def isspace_def)


text \<open>The loop of the parser on the output of the loop of \<open>to_string\<close>.\<close>

lemma to_string_loop_no_digit_first: "takeWhile isdigit (to_string_loop cs) = []"
  by (cases cs) (simp_all add: isdigit_def)

lemma parse_loop_to_string_loop:
  assumes "list_all (\<lambda>c. \<not> is_periodic_marker c
              \<and> LLONG_MIN \<le> signed_value c \<and> signed_value c \<le> LLONG_MAX) cs"
  shows "parse_loop coeff (to_string_loop cs) acc
           = acc @ map (\<lambda>c. Coefficient1 (signed_value c)) cs"
  using assms
proof (induction cs arbitrary: coeff acc)
  case Nil
  show ?case
    by (subst parse_loop.simps) (simp del: parse_loop.simps add: get_char_def skipws_def)
next
  case (Cons c cs)
  let ?v = "signed_value c"
  from Cons.prems have c: "\<not> is_periodic_marker c" "LLONG_MIN \<le> ?v" "?v \<le> LLONG_MAX"
    and cs: "list_all (\<lambda>c. \<not> is_periodic_marker c
              \<and> LLONG_MIN \<le> signed_value c \<and> signed_value c \<le> LLONG_MAX) cs"
    by (simp_all del: parse_loop.simps)
  have str: "to_string_loop (c # cs)
      = CHR '';'' # CHR '' '' # (show_ll ?v @ to_string_loop cs)"
    using c(1) by (simp del: parse_loop.simps)
  have gc: "get_char (to_string_loop (c # cs))
      = Some (CHR '';'', CHR '' '' # (show_ll ?v @ to_string_loop cs))"
    unfolding str by (simp del: parse_loop.simps add: get_char_def skipws_def isspace_def)
  have gl: "get_ll coeff (CHR '' '' # (show_ll ?v @ to_string_loop cs))
      = (?v, True, to_string_loop cs)"
    unfolding get_ll_space
    using c(2,3) to_string_loop_no_digit_first by (rule get_ll_show_ll)
  have "parse_loop coeff (to_string_loop (c # cs)) acc
      = parse_loop ?v (to_string_loop cs) (acc @ [Coefficient1 ?v])"
    by (subst parse_loop.simps, subst gc) (simp del: parse_loop.simps add: gl)
  also have "\<dots> = (acc @ [Coefficient1 ?v]) @ map (\<lambda>c. Coefficient1 (signed_value c)) cs"
    using cs by (rule Cons.IH)
  finally show ?case
    by (simp del: parse_loop.simps)
qed

lemma no_bracket_show_ll: "list_all (\<lambda>c. c \<noteq> CHR ''['' \<and> c \<noteq> CHR '']'') (show_ll v)"
proof -
  have "list_all (\<lambda>c. c \<noteq> CHR ''['' \<and> c \<noteq> CHR '']'') (show_nat n)" for n
    using show_nat_digits [of n] isdigit_not_special(4,5)
    by (auto simp del: show_nat.simps simp add: list_all_iff)
  then show ?thesis
    by (simp del: show_nat.simps add: show_ll_def)
qed

lemma no_bracket_to_string_loop:
  "list_all (\<lambda>c. \<not> is_periodic_marker c) cs
   \<Longrightarrow> list_all (\<lambda>c. c \<noteq> CHR ''['' \<and> c \<noteq> CHR '']'') (to_string_loop cs)"
  by (induction cs) (simp_all add: no_bracket_show_ll)

lemma show_ll_nonempty: "show_ll v \<noteq> []"
  by (simp del: show_nat.simps add: show_ll_def show_nat_nonempty)

lemma regex_match_brackets:
  assumes "content \<noteq> []" and "list_all (\<lambda>c. c \<noteq> CHR ''['' \<and> c \<noteq> CHR '']'') content"
  shows "regex_match (''['' @ content @ '']'') = Some content"
proof -
  have "length (''['' @ content @ '']'') \<ge> 3"
    using assms(1) by (cases content) simp_all
  moreover have "butlast (tl (''['' @ content @ '']'')) = content"
    by (simp add: butlast_append)
  ultimately show ?thesis
    using assms(2) by (simp add: regex_match_def)
qed


text \<open>Normalization leaves a canonical sequence without marker as it is.\<close>

lemma signed_value_Coefficient1: "signed_value (Coefficient1 v) = v"
  by (simp add: signed_value_def Coefficient1_def Coefficient3_def)

lemma marker_Coefficient1: "is_periodic_marker (Coefficient1 v) = False"
  by (simp add: Coefficient1_def Coefficient3_def)

lemma merge_loop_no_plain_one:
  assumes "\<And>j. i \<le> j \<Longrightarrow> j + 2 < length cs \<Longrightarrow>
      \<not> (value' (cs ! (j + 1)) = 1 \<and> \<not> is_negative (cs ! (j + 1))
          \<and> \<not> is_periodic_marker (cs ! (j + 1)))"
  shows "merge_loop i cs = cs"
  using assms
proof (induction i cs rule: merge_loop.induct)
  case (1 i cs)
  show ?case
  proof (cases "i + 2 < length cs")
    case False
    then show ?thesis
      by (subst merge_loop.simps) (simp del: merge_loop.simps)
  next
    case True
    have no: "\<not> (value' (cs ! (i + 1)) = 1 \<and> \<not> is_negative (cs ! (i + 1))
          \<and> \<not> is_periodic_marker (cs ! (i + 1)))"
      using "1.prems" [of i] True by (simp del: merge_loop.simps)
    have "merge_loop (i + 1) cs = cs"
    proof (rule "1.IH"(2) [OF True no])
      fix j
      assume "i + 1 \<le> j" and "j + 2 < length cs"
      then show "\<not> (value' (cs ! (j + 1)) = 1 \<and> \<not> is_negative (cs ! (j + 1))
          \<and> \<not> is_periodic_marker (cs ! (j + 1)))"
        using "1.prems" [of j] by (simp del: merge_loop.simps)
    qed
    with True no show ?thesis
      by (subst merge_loop.simps) (auto simp del: merge_loop.simps)
  qed
qed

lemma interior_nth:
  assumes "list_all Q (butlast (tl cs))" and "j + 2 < length cs"
  shows "Q (cs ! (j + 1))"
proof -
  from assms(2) have j: "j < length (butlast (tl cs))"
    by simp
  with assms(1) have "Q (butlast (tl cs) ! j)"
    by (simp add: list_all_length)
  moreover have "butlast (tl cs) ! j = tl cs ! j"
    using j by (simp add: nth_butlast)
  moreover have "tl cs ! j = cs ! Suc j"
    using assms(2) by (simp add: nth_tl)
  ultimately show ?thesis
    by simp
qed

lemma remove_zeros_id:
  "list_all (\<lambda>c. value' c \<noteq> 0) (tl cs) \<Longrightarrow> remove_zeros cs = cs"
proof -
  assume a: "list_all (\<lambda>c. value' c \<noteq> 0) (tl cs)"
  then have "filter (\<lambda>c. value' c \<noteq> 0) (tl cs) = tl cs"
    by (simp add: list_all_iff)
  then show ?thesis
    by (cases cs) (simp_all add: remove_zeros_def)
qed

lemma normalize_cf_fields:
  "normalize_cf cf =
     \<lparr> coefficients' = merge_loop 0 (remove_zeros (coefficients' cf)),
       is_finite' = (\<not> list_ex is_periodic_marker (merge_loop 0 (remove_zeros (coefficients' cf)))),
       is_periodic' = list_ex is_periodic_marker (merge_loop 0 (remove_zeros (coefficients' cf))),
       cached_value' = 0, value_cached' = False \<rparr>"
  by (cases cf) (simp del: merge_loop.simps
      add: normalize_cf_def update_flags_def invalidate_cache_def Let_def)

lemma all_coeff_eq_map:
  "list_all (\<lambda>c. coeff_eq (f c) c) cs \<Longrightarrow> all_coeff_eq (map f cs) cs"
  by (induction cs) simp_all


lemma normalize_cf_canonical:
  assumes nonneg: "list_all (\<lambda>c. 0 \<le> value' c) cs"
    and nomark: "list_all (\<lambda>c. \<not> is_periodic_marker c) cs"
    and nozero: "list_all (\<lambda>c. value' c \<noteq> 0) (tl cs)"
    and noone: "list_all (\<lambda>c. \<not> (value' c = 1 \<and> \<not> is_negative c \<and> \<not> is_periodic_marker c))
            (butlast (tl cs))"
    and cf: "coefficients' cf = map (\<lambda>c. Coefficient1 (signed_value c)) cs"
  shows "normalize_cf cf =
     \<lparr> coefficients' = map (\<lambda>c. Coefficient1 (signed_value c)) cs,
       is_finite' = True, is_periodic' = False, cached_value' = 0, value_cached' = False \<rparr>"
proof -
  let ?f = "\<lambda>c. Coefficient1 (signed_value c)"
  have val: "value' (?f c) = value' c" if "0 \<le> value' c" for c
    using that
      by (simp del: merge_loop.simps add: Coefficient1_def Coefficient3_def signed_value_def)
  have neg: "is_negative (?f c) = (is_negative c \<and> value' c \<noteq> 0)" if "0 \<le> value' c" for c
    using that
      by (auto simp del: merge_loop.simps
          simp add: Coefficient1_def Coefficient3_def signed_value_def)
  have mark: "is_periodic_marker (?f c) = False" for c
    by (simp del: merge_loop.simps add: Coefficient1_def Coefficient3_def)
  have "list_all (\<lambda>c. 0 \<le> value' c) (tl cs)"
    using nonneg by (cases cs) (simp_all del: merge_loop.simps)
  with nozero have "list_all (\<lambda>c. value' c \<noteq> 0) (map ?f (tl cs))"
    by (auto simp del: merge_loop.simps simp add: list_all_iff val)
  then have rz: "remove_zeros (map ?f cs) = map ?f cs"
    by (intro remove_zeros_id) (simp del: merge_loop.simps add: map_tl)
  have ml: "merge_loop 0 (map ?f cs) = map ?f cs"
  proof (rule merge_loop_no_plain_one)
    fix j
    assume j: "j + 2 < length (map ?f cs)"
    then have jl: "j + 2 < length cs"
      by (simp del: merge_loop.simps)
    let ?c = "cs ! (j + 1)"
    have c0: "0 \<le> value' ?c" and cm: "\<not> is_periodic_marker ?c"
      using nonneg nomark jl by (simp_all del: merge_loop.simps add: list_all_length)
    have "\<not> (value' ?c = 1 \<and> \<not> is_negative ?c \<and> \<not> is_periodic_marker ?c)"
      using noone jl by (rule interior_nth)
    with cm have "\<not> (value' ?c = 1 \<and> \<not> is_negative ?c)"
      by (simp del: merge_loop.simps)
    then have "\<not> (value' (?f ?c) = 1 \<and> \<not> is_negative (?f ?c))"
      using c0 by (auto simp del: merge_loop.simps simp add: val neg)
    moreover have "map ?f cs ! (j + 1) = ?f ?c"
      using jl by (simp del: merge_loop.simps)
    ultimately show "\<not> (value' (map ?f cs ! (j + 1)) = 1 \<and> \<not> is_negative (map ?f cs ! (j + 1))
          \<and> \<not> is_periodic_marker (map ?f cs ! (j + 1)))"
      by (simp del: merge_loop.simps)
  qed
  have "\<not> list_ex is_periodic_marker (map ?f cs)"
    by (simp del: merge_loop.simps add: list_ex_iff mark)
  then show ?thesis
    by (simp del: merge_loop.simps add: normalize_cf_fields cf rz ml)
qed

text \<open>
  Claim C9: for every continued fraction that is not periodic and is in canonical form, the
  fraction constructed from the string that \<open>to_string\<close> returns is equal to it under
  \<open>operator==\<close>: the parser reads the separators that the serializer writes, and
  normalization leaves a canonical finite sequence unchanged.

  Canonical form is the canonical state of the data model (\<open>canonical\<close> above), on an
  object with the invariants of the data model (\<open>well_formed\<close>). The constructed fraction is
  the one that the constructor from a vector builds from \<open>get_coefficients\<close>.
\<close>

theorem to_string_parse_round_trip:
  assumes wf: "well_formed cf" and can: "canonical cf" and fin: "\<not> is_periodic cf"
  shows "ContinuedFraction_of_string (to_string cf)
           = Inr (ContinuedFraction_of_vector (get_coefficients cf))
     \<and> get_coefficients (ContinuedFraction_of_vector (get_coefficients cf)) = get_coefficients cf
     \<and> cf_equal (ContinuedFraction_of_vector (get_coefficients cf)) cf"
proof -
  let ?f = "\<lambda>c. Coefficient1 (signed_value c)"
  define cs where "cs = coefficients' cf"
  from wf obtain c0 rest where cs: "cs = c0 # rest"
    unfolding well_formed_def cs_def by (cases "coefficients' cf") (auto simp del: parse_loop.simps)
  from wf have bound: "list_all (\<lambda>c. 0 \<le> value' c \<and> value' c \<le> LLONG_MAX) cs"
    and flag: "is_periodic' cf = list_ex is_periodic_marker cs"
    unfolding well_formed_def cs_def by (simp_all del: parse_loop.simps)
  from fin flag have nomark: "list_all (\<lambda>c. \<not> is_periodic_marker c) cs"
    by (simp del: parse_loop.simps add: is_periodic_def list_all_iff list_ex_iff)
  from bound have nonneg: "list_all (\<lambda>c. 0 \<le> value' c) cs"
    by (simp del: parse_loop.simps add: list_all_iff)
  from can have nozero: "list_all (\<lambda>c. value' c \<noteq> 0) (tl cs)"
    and noone: "list_all (\<lambda>c. \<not> (value' c = 1 \<and> \<not> is_negative c \<and> \<not> is_periodic_marker c))
            (butlast (tl cs))"
    unfolding canonical_def cs_def by (simp_all del: parse_loop.simps)
  have range: "list_all (\<lambda>c. \<not> is_periodic_marker c
              \<and> LLONG_MIN \<le> signed_value c \<and> signed_value c \<le> LLONG_MAX) cs"
    using bound nomark
      by (auto simp del: parse_loop.simps
          simp add: list_all_iff signed_value_def LLONG_MIN_def LLONG_MAX_def)
  then have range0: "LLONG_MIN \<le> signed_value c0" "signed_value c0 \<le> LLONG_MAX"
    and range_rest: "list_all (\<lambda>c. \<not> is_periodic_marker c
              \<and> LLONG_MIN \<le> signed_value c \<and> signed_value c \<le> LLONG_MAX) rest"
    by (simp_all del: parse_loop.simps add: cs)
  define content where "content = show_ll (signed_value c0) @ to_string_loop rest"
  have str: "to_string cf = ''['' @ content @ '']''"
    using fin cs
      by (simp del: parse_loop.simps add: to_string_def content_def is_periodic_def flip: cs_def)
  have "list_all (\<lambda>c. \<not> is_periodic_marker c) rest"
    using nomark by (simp del: parse_loop.simps add: cs)
  then have "list_all (\<lambda>c. c \<noteq> CHR ''['' \<and> c \<noteq> CHR '']'') content"
    by (simp del: parse_loop.simps add: content_def no_bracket_show_ll no_bracket_to_string_loop)
  moreover have "content \<noteq> []"
    by (simp del: parse_loop.simps add: content_def show_ll_nonempty)
  ultimately have rm: "regex_match (to_string cf) = Some content"
    unfolding str by (intro regex_match_brackets)
  have gl: "get_ll 0 content = (signed_value c0, True, to_string_loop rest)"
    unfolding content_def
    using range0 to_string_loop_no_digit_first by (rule get_ll_show_ll)
  have pl: "parse_loop (signed_value c0) (to_string_loop rest) [Coefficient1 (signed_value c0)]
      = map ?f cs"
    using parse_loop_to_string_loop [OF range_rest] by (simp del: parse_loop.simps add: cs)
  have parsed: "parse_string (to_string cf) start
      = (None, normalize_cf (start\<lparr> coefficients' := map ?f cs \<rparr>))" for start
    by (simp del: parse_loop.simps add: parse_string_def rm gl pl)
  have norm: "normalize_cf x =
     \<lparr> coefficients' = map ?f cs,
       is_finite' = True, is_periodic' = False, cached_value' = 0, value_cached' = False \<rparr>"
    if "coefficients' x = map ?f cs" for x
    using nonneg nomark nozero noone that by (rule normalize_cf_canonical)
  have vec: "map Coefficient1 (get_coefficients cf) = map ?f cs"
    by (simp del: parse_loop.simps add: get_coefficients_def cs_def)
  have of_vec: "ContinuedFraction_of_vector (get_coefficients cf) =
     \<lparr> coefficients' = map ?f cs,
       is_finite' = True, is_periodic' = False, cached_value' = 0, value_cached' = False \<rparr>"
    unfolding ContinuedFraction_of_vector_def by (rule norm) (simp del: parse_loop.simps add: vec)
  have of_str: "ContinuedFraction_of_string (to_string cf) =
     Inr \<lparr> coefficients' = map ?f cs,
       is_finite' = True, is_periodic' = False, cached_value' = 0, value_cached' = False \<rparr>"
    unfolding ContinuedFraction_of_string_def parsed by (simp del: parse_loop.simps add: norm)
  have coeffs: "get_coefficients (ContinuedFraction_of_vector (get_coefficients cf))
      = get_coefficients cf"
    unfolding of_vec
      by (simp del: parse_loop.simps
          add: get_coefficients_def signed_value_Coefficient1 cs_def o_def)
  have "list_all (\<lambda>c. coeff_eq (?f c) c) cs"
    using nomark
    by (simp del: parse_loop.simps
        add: list_all_iff coeff_eq_def signed_value_Coefficient1 marker_Coefficient1)
  then have "all_coeff_eq (map ?f cs) cs"
    by (rule all_coeff_eq_map)
  then have eq: "cf_equal (ContinuedFraction_of_vector (get_coefficients cf)) cf"
    unfolding of_vec by (simp del: parse_loop.simps add: cf_equal_def flip: cs_def)
  from of_str of_vec coeffs eq show ?thesis
    by (simp del: parse_loop.simps)
qed

theorem to_string_parse_round_trip_witness:
  "well_formed (ContinuedFraction_of_vector [3, - 7, 15, 1])
   \<and> canonical (ContinuedFraction_of_vector [3, - 7, 15, 1])
   \<and> \<not> is_periodic (ContinuedFraction_of_vector [3, - 7, 15, 1])
   \<and> to_string (ContinuedFraction_of_vector [3, - 7, 15, 1]) = ''[3; -7; 15; 1]''
   \<and> ContinuedFraction_of_string ''[3; -7; 15; 1]''
       = Inr (ContinuedFraction_of_vector [3, - 7, 15, 1])
   \<and> cf_equal (ContinuedFraction_of_vector [3, - 7, 15, 1])
       (ContinuedFraction_of_vector [3, - 7, 15, 1])"
proof -
  let ?cf = "ContinuedFraction_of_vector [3, - 7, 15, 1]"
  have h1: "well_formed ?cf"
    by code_simp
  have h2: "canonical ?cf"
    by code_simp
  have h3: "\<not> is_periodic ?cf"
    by code_simp
  have s: "to_string ?cf = ''[3; -7; 15; 1]''"
    by code_simp
  have g: "get_coefficients ?cf = [3, - 7, 15, 1]"
    by code_simp
  from to_string_parse_round_trip [OF h1 h2 h3] h1 h2 h3 s show ?thesis
    unfolding s g by blast
qed

end
